theory Spec2Isabelle
  imports Complex_Main "HOL-Library.Char_ord" "HOL-Library.List_Lexorder"
begin

section \<open>The connection loop of src/connection-loop.ts\<close>

text \<open>
  The numbers of the source are JavaScript numbers. Every number that the functions below
  receive is an integer: a duration is a difference of two \<open>Date.now()\<close> readings (whole
  milliseconds), the delay starts at \<open>MIN_DELAY\<close> and is only doubled, capped, or replaced
  by the result of \<open>| 0\<close>. They are modelled as \<open>int\<close>. The only fractional values are the
  mean of two durations in \<open>median\<close> and the quotient by \<open>maxConnections\<close>; both are
  modelled exactly, as \<open>rat\<close>. The option \<open>maxConnections\<close> of the delegate is taken to be
  an integer.
\<close>

subsection \<open>Constants\<close>

definition DEBOUNCE_DELAY :: int where
  "DEBOUNCE_DELAY = 10"

definition MIN_DELAY :: int where
  "MIN_DELAY = 30"

definition MAX_DELAY :: int where
  "MAX_DELAY = 60000"

definition MAX_CONNECTIONS :: int where
  "MAX_CONNECTIONS = 3"

definition CONNECTION_MEMORY_COUNT :: nat where
  "CONNECTION_MEMORY_COUNT = 9"

subsection \<open>Send records\<close>

record SendRecord =
  duration :: int
  ok :: bool

subsection \<open>JavaScript primitives used by the delay computation\<close>

text \<open>
  \<open>x | 0\<close> applies ToInt32 to \<open>x\<close>: the value is truncated towards zero, reduced modulo
  \<open>2^32\<close> and read as a signed 32-bit integer.
\<close>

definition toInt32 :: "rat \<Rightarrow> int" where
  "toInt32 x =
     (let t = (if x < 0 then - \<lfloor>- x\<rfloor> else \<lfloor>x\<rfloor>);
          m = t mod 2 ^ 32
      in if 2 ^ 31 \<le> m then m - 2 ^ 32 else m)"

text \<open>
  \<open>(x / maxConnections) | 0\<close>. A division by zero yields an infinity or NaN in
  JavaScript, and ToInt32 sends both to 0.
\<close>

definition div_or0 :: "rat \<Rightarrow> int \<Rightarrow> int" where
  "div_or0 x maxConnections =
     (if maxConnections = 0 then 0 else toInt32 (x / of_int maxConnections))"

text \<open>
  Number-to-string conversion of an integer, as \<open>Array.prototype.sort\<close> applies it when
  no comparison function is given: decimal digits, with a leading minus sign for a
  negative number. (Beyond \<open>10^21\<close> JavaScript switches to exponent notation; a
  duration in milliseconds does not get there.)
\<close>

definition digit :: "nat \<Rightarrow> char" where
  "digit n = ''0123456789'' ! (n mod 10)"

fun digits :: "nat \<Rightarrow> string" where
  "digits n = (if n < 10 then [digit n] else digits (n div 10) @ [digit (n mod 10)])"

declare digits.simps [simp del]

definition toString :: "int \<Rightarrow> string" where
  "toString i = (if i < 0 then CHR ''-'' # digits (nat (- i)) else digits (nat i))"

text \<open>
  \<open>values.sort()\<close> with no comparison function: the elements are ordered by their
  string conversions, compared code unit by code unit; the sort is stable.
\<close>

definition js_sort :: "int list \<Rightarrow> int list" where
  "js_sort values = sort_key toString values"

subsection \<open>The functions of the module\<close>

text \<open>
  \<open>median\<close> returns \<open>None\<close> for NaN, which is what the source computes on an empty
  array (\<open>undefined + undefined\<close>).
\<close>

definition median :: "int list \<Rightarrow> rat option" where
  "median values =
     (let vs = js_sort values;
          n = length vs;
          half = n div 2
      in if n mod 2 = 1 then Some (of_int (vs ! half))
         else if n = 0 then None
         else Some ((of_int (vs ! (half - 1)) + of_int (vs ! half)) / 2))"

definition didLastSendRequestFail :: "SendRecord list \<Rightarrow> bool" where
  "didLastSendRequestFail sendRecords \<longleftrightarrow>
     length sendRecords > 0 \<and> \<not> ok (sendRecords ! (length sendRecords - 1))"

definition recovered :: "SendRecord list \<Rightarrow> bool" where
  "recovered sendRecords \<longleftrightarrow>
     length sendRecords > 1 \<and>
     \<not> ok (sendRecords ! (length sendRecords - 2)) \<and>
     ok (sendRecords ! (length sendRecords - 1))"

text \<open>
  \<open>computeDelayAndUpdateDurations\<close> returns the new delay and mutates the array it is
  given (\<open>sendRecords.shift()\<close>); the model returns the delay together with the array as
  the call leaves it.
\<close>

definition computeDelayAndUpdateDurations ::
  "int \<Rightarrow> int \<Rightarrow> SendRecord list \<Rightarrow> int \<times> SendRecord list" where
  "computeDelayAndUpdateDurations delay maxConnections sendRecords =
     (let len = length sendRecords in
      if len = 0 then (delay, sendRecords)
      else
        let r = sendRecords ! (len - 1) in
        if \<not> ok r then (min MAX_DELAY (delay * 2), sendRecords)
        else if len = 1 then (div_or0 (of_int (duration r)) maxConnections, sendRecords)
        else
          let previous = sendRecords ! (len - 2);
              pruned = (if length sendRecords > CONNECTION_MEMORY_COUNT
                        then tl sendRecords else sendRecords)
          in if ok r \<and> \<not> ok previous then (MIN_DELAY, pruned)
             else (case median (map duration (filter ok pruned)) of
                     None \<Rightarrow> (0, pruned)
                   | Some med \<Rightarrow> (div_or0 med maxConnections, pruned)))"

subsection \<open>The median of the specification\<close>

text \<open>
  The standard numerical median: the middle element of the values in increasing
  numerical order, or the mean of the two middle elements.
\<close>

definition numeric_median :: "int list \<Rightarrow> rat" where
  "numeric_median values =
     (let vs = sort values;
          n = length vs;
          half = n div 2
      in if n mod 2 = 1 then of_int (vs ! half)
         else (of_int (vs ! (half - 1)) + of_int (vs ! half)) / 2)"

subsection \<open>The delegate\<close>

text \<open>
  The options of \<open>ConnectionLoopDelegate\<close> that \<open>run\<close> reads. Each is optional in the
  source. \<open>debounceDelay\<close> and \<open>watchdogTimer\<close> are functions there; they are modelled
  as returning the same value at every call, and \<open>watchdogTimer = None\<close> stands for a
  missing function as well as for one that returns \<open>null\<close>. The logging functions
  \<open>debug\<close> and \<open>info\<close> have no effect on the loop and are left out. No function of
  the delegate is taken to call \<open>send\<close> or \<open>close\<close> on the loop while it runs.
\<close>

record Delegate =
  debounceDelay :: "int option"
  maxConnections :: "int option"
  watchdogTimer :: "int option"

definition debounce_of :: "Delegate \<Rightarrow> int" where
  "debounce_of dg = (case debounceDelay dg of None \<Rightarrow> DEBOUNCE_DELAY | Some t \<Rightarrow> t)"

definition connections_of :: "Delegate \<Rightarrow> int" where
  "connections_of dg = (case maxConnections dg of None \<Rightarrow> MAX_CONNECTIONS | Some n \<Rightarrow> n)"

subsection \<open>The state of a connection loop\<close>

text \<open>
  \<open>run\<close> is an asynchronous function: it executes until it reaches an \<open>await\<close>, and is
  resumed later, after the promise it awaits has been settled. Between two \<open>await\<close>s
  nothing else runs. The model is a state machine whose states are the states of the loop
  while \<open>run\<close> is suspended, and whose steps are the things that happen in between: a
  call of \<open>send\<close> or \<open>close\<close>, the passing of time, the elapsing of a timer, the
  settling of an \<open>invokeSend\<close> promise, and the resumption of \<open>run\<close>.

  \<open>pc\<close> says at which \<open>await\<close> the loop is suspended:
  \<^item> \<open>Pending\<close>: \<open>await Promise.race(races)\<close>, waiting for \<open>send\<close> or the watchdog;
  \<^item> \<open>Debounce\<close>: \<open>await sleep(debounceDelay())\<close>;
  \<^item> \<open>Admit\<close>: \<open>await this._waitUntilAvailableConnection()\<close>;
  \<^item> \<open>Pace\<close>: \<open>await Promise.race([sleep(delay - timeSinceLastSend),
    recoverResolver.promise])\<close>;
  \<^item> \<open>Exited\<close>: the \<open>while\<close> loop has been left.
\<close>

datatype pc = Pending | Debounce | Admit | Pace | Exited

text \<open>
  The fields \<open>closed'\<close>, \<open>pendingResolver\<close> and \<open>waitingConnectionResolve\<close> are the
  fields \<open>_closed\<close>, \<open>_pendingResolver\<close> and \<open>_waitingConnectionResolve\<close> of the class;
  \<open>sendRecords\<close>, \<open>delay\<close>, \<open>lastSendTime\<close> and \<open>counter\<close> are the local variables of
  \<open>run\<close>. The remaining fields describe the suspended computation:
  \<^item> \<open>pendingResolver\<close> is \<open>True\<close> when the current resolver has been resolved;
  \<^item> \<open>waitingConnectionResolve\<close> is \<open>True\<close> when the field holds a resolve function;
  \<^item> \<open>woken\<close>: the promise the loop awaits has been settled, so that \<open>run\<close> can resume;
  \<^item> \<open>timer\<close>: the time at which the \<open>sleep\<close> the loop awaits elapses, if it awaits one;
  \<^item> \<open>inflight\<close>: the variable \<open>start\<close> of every \<open>invokeSend\<close> call not yet settled;
  \<^item> \<open>sends\<close>: the times of all \<open>invokeSend\<close> calls made so far, oldest first;
  \<^item> \<open>now\<close>: the clock, what \<open>Date.now()\<close> returns.
\<close>

record Loop =
  closed' :: bool
  pendingResolver :: bool
  waitingConnectionResolve :: bool
  sendRecords :: "SendRecord list"
  delay :: int
  lastSendTime :: int
  counter :: int
  pc :: pc
  woken :: bool
  timer :: "int option"
  inflight :: "int list"
  sends :: "int list"
  now :: int

text \<open>
  Modelled from the spec: \<open>resolver.js\<close> and \<open>sleep.js\<close> are not among the sources.
  A resolver is a one-shot notification (a promise and the function that resolves it),
  re-armed by replacing it with a fresh one; resolving it again changes nothing.
  \<open>sleep(ms)\<close> is a promise that is resolved once \<open>ms\<close> milliseconds have passed.
\<close>

definition resolve_pending :: "Loop \<Rightarrow> Loop" where
  "resolve_pending s = s\<lparr>pendingResolver := True, woken := (woken s \<or> pc s = Pending)\<rparr>"

definition timer_fires :: "Loop \<Rightarrow> Loop" where
  "timer_fires s =
     (case timer s of
        None \<Rightarrow> s
      | Some t \<Rightarrow> if t \<le> now s then s\<lparr>woken := True\<rparr> else s)"

subsection \<open>The methods of the class\<close>

definition close :: "Loop \<Rightarrow> Loop" where
  "close s = s\<lparr>closed' := True\<rparr>"

definition send :: "Loop \<Rightarrow> Loop" where
  "send s = resolve_pending s"

definition connectionAvailable :: "Loop \<Rightarrow> Loop" where
  "connectionAvailable s =
     (if waitingConnectionResolve s
      then s\<lparr>waitingConnectionResolve := False, woken := True\<rparr>
      else s)"

definition waitUntilAvailableConnection :: "Loop \<Rightarrow> Loop" where
  "waitUntilAvailableConnection s =
     s\<lparr>waitingConnectionResolve := True, pc := Admit, woken := False, timer := None\<rparr>"

subsection \<open>The body of run, from one await to the next\<close>

definition exit_loop :: "Loop \<Rightarrow> Loop" where
  "exit_loop s = s\<lparr>pc := Exited, woken := False, timer := None\<rparr>"

text \<open>
  The head of the \<open>while\<close> loop, up to \<open>await Promise.race(races)\<close>. A resolver that is
  already resolved settles the race at once.
\<close>

definition loop_head :: "Delegate \<Rightarrow> Loop \<Rightarrow> Loop" where
  "loop_head dg s =
     (if closed' s then exit_loop s
      else s\<lparr>pc := Pending,
             woken := pendingResolver s,
             timer := (case watchdogTimer dg of None \<Rightarrow> None | Some t \<Rightarrow> Some (now s + t))\<rparr>)"

text \<open>
  \<open>counter++\<close> and the start of the asynchronous function that calls \<open>invokeSend\<close>,
  which runs up to its \<open>await\<close>; then the loop goes back to its head.
\<close>

definition dispatch :: "Delegate \<Rightarrow> Loop \<Rightarrow> Loop" where
  "dispatch dg s =
     loop_head dg
       (s\<lparr>counter := counter s + 1,
          lastSendTime := now s,
          inflight := inflight s @ [now s],
          sends := sends s @ [now s]\<rparr>)"

text \<open>The pacing step: \<open>if (counter > 0 || didLastSendRequestFail(sendRecords)) ...\<close>.\<close>

definition pace :: "Delegate \<Rightarrow> Loop \<Rightarrow> Loop" where
  "pace dg s =
     (if counter s > 0 \<or> didLastSendRequestFail (sendRecords s) then
        let r = computeDelayAndUpdateDurations (delay s) (connections_of dg) (sendRecords s);
            s1 = s\<lparr>delay := fst r, sendRecords := snd r\<rparr>;
            timeSinceLastSend = now s1 - lastSendTime s1
        in if delay s1 > timeSinceLastSend
           then s1\<lparr>pc := Pace, woken := False,
                   timer := Some (now s1 + (delay s1 - timeSinceLastSend))\<rparr>
           else dispatch dg s1
      else dispatch dg s)"

text \<open>
  After the debounce: the pending resolver is replaced by a fresh one, and the loop waits
  for a connection if \<open>counter >= maxConnections\<close>.
\<close>

definition admit :: "Delegate \<Rightarrow> Loop \<Rightarrow> Loop" where
  "admit dg s =
     (let s1 = s\<lparr>pendingResolver := False\<rparr>
      in if counter s1 \<ge> connections_of dg then waitUntilAvailableConnection s1
         else pace dg s1)"

text \<open>
  The resumption of \<open>run\<close> after the \<open>await\<close> it is suspended at. Each \<open>await\<close> is
  followed by \<open>if (this._closed) break\<close>.
\<close>

definition resume :: "Delegate \<Rightarrow> Loop \<Rightarrow> Loop" where
  "resume dg s =
     (if \<not> woken s then s
      else case pc s of
        Pending \<Rightarrow>
          if closed' s then exit_loop s
          else s\<lparr>pc := Debounce, woken := False, timer := Some (now s + debounce_of dg)\<rparr>
      | Debounce \<Rightarrow> if closed' s then exit_loop s else admit dg s
      | Admit \<Rightarrow> if closed' s then exit_loop s else pace dg s
      | Pace \<Rightarrow> if closed' s then exit_loop s else dispatch dg s
      | Exited \<Rightarrow> s)"

text \<open>
  The rest of the asynchronous function of a dispatch, run when the promise of its
  \<open>invokeSend\<close> call is settled: \<open>okv\<close> is the value it resolved to, or \<open>False\<close> if it
  was rejected. \<open>i\<close> selects the call among those in flight.
\<close>

definition settle :: "nat \<Rightarrow> bool \<Rightarrow> Loop \<Rightarrow> Loop" where
  "settle i okv s =
     (if i \<ge> length (inflight s) then s
      else
        let start = inflight s ! i;
            s0 = s\<lparr>inflight := take i (inflight s) @ drop (Suc i) (inflight s)\<rparr>
        in if closed' s0 then s0
           else
             let s1 = s0\<lparr>sendRecords :=
                           sendRecords s0 @ [\<lparr>duration = now s0 - start, ok = okv\<rparr>]\<rparr>;
                 s2 = (if recovered (sendRecords s1) \<and> pc s1 = Pace
                       then s1\<lparr>woken := True\<rparr> else s1);
                 s3 = s2\<lparr>counter := counter s2 - 1\<rparr>;
                 s4 = connectionAvailable s3
             in if \<not> okv then resolve_pending s4 else s4)"

subsection \<open>Runs\<close>

datatype event =
    Send
  | Close
  | Elapse nat
  | TimerFires
  | Settle nat bool
  | Resume

fun step :: "Delegate \<Rightarrow> event \<Rightarrow> Loop \<Rightarrow> Loop" where
  "step dg Send s = send s"
| "step dg Close s = close s"
| "step dg (Elapse n) s = s\<lparr>now := now s + int n\<rparr>"
| "step dg TimerFires s = timer_fires s"
| "step dg (Settle i okv) s = settle i okv s"
| "step dg Resume s = resume dg s"

definition execute :: "Delegate \<Rightarrow> event list \<Rightarrow> Loop \<Rightarrow> Loop" where
  "execute dg evs s = foldl (\<lambda>s e. step dg e s) s evs"

text \<open>
  The constructor: it stores the delegate and calls \<open>run\<close>, which initialises its
  variables and runs to its first \<open>await\<close>. \<open>t0\<close> is the time of the call.
\<close>

definition new_loop :: "Delegate \<Rightarrow> int \<Rightarrow> Loop" where
  "new_loop dg t0 =
     loop_head dg
       \<lparr>closed' = False, pendingResolver = False, waitingConnectionResolve = False,
        sendRecords = [], delay = MIN_DELAY, lastSendTime = 0, counter = 0,
        pc = Pending, woken = False, timer = None, inflight = [], sends = [], now = t0\<rparr>"

definition default_delegate :: Delegate where
  "default_delegate = \<lparr>debounceDelay = None, maxConnections = None, watchdogTimer = None\<rparr>"

subsection \<open>Predicates on runs\<close>

text \<open>
  \<open>paced d k prev ts\<close>: the dispatch times \<open>ts\<close> are spaced by the backoff that
  starts from the delay \<open>d\<close>. The first is at least \<open>min (MAX_DELAY, d * 2^k)\<close> after
  \<open>prev\<close>, the second at least \<open>min (MAX_DELAY, d * 2^(k+1))\<close> after the first, and so
  on.
\<close>

fun paced :: "int \<Rightarrow> nat \<Rightarrow> int \<Rightarrow> int list \<Rightarrow> bool" where
  "paced d k prev [] = True"
| "paced d k prev (t # ts) = (prev + min MAX_DELAY (d * 2 ^ k) \<le> t \<and> paced d (Suc k) t ts)"

text \<open>
  The invariant of a streak of failures that began with the delay \<open>d0\<close>, the last
  dispatch at \<open>t0\<close> and the dispatches \<open>base\<close>: \<open>new\<close> are the dispatches made since.
\<close>

definition failure_streak :: "int \<Rightarrow> int \<Rightarrow> int list \<Rightarrow> Loop \<Rightarrow> int list \<Rightarrow> bool" where
  "failure_streak d0 t0 base s new \<longleftrightarrow>
     sends s = base @ new \<and> paced d0 1 t0 new \<and>
     didLastSendRequestFail (sendRecords s) \<and>
     (waitingConnectionResolve s \<longrightarrow> pc s = Admit \<and> \<not> woken s \<and> timer s = None) \<and>
     lastSendTime s = last (t0 # new) \<and>
     (if pc s = Pace
      then delay s = min MAX_DELAY (d0 * 2 ^ Suc (length new)) \<and>
           timer s = Some (lastSendTime s + delay s) \<and>
           (woken s \<longrightarrow> lastSendTime s + delay s \<le> now s)
      else pc s \<noteq> Exited \<longrightarrow>
           delay s = (if new = [] then d0 else min MAX_DELAY (d0 * 2 ^ length new)))"

subsection \<open>Example runs\<close>

text \<open>
  One send on an idle loop that succeeds after 5 ms: \<open>send()\<close>, the debounce of 10 ms,
  the dispatch, the outcome.
\<close>

definition serial_ok :: "event list" where
  "serial_ok = [Send, Resume, Elapse 10, TimerFires, Resume, Elapse 5, Settle 0 True]"

text \<open>Two sends, the second one debounced while the first is still in flight.\<close>

definition overlap :: "event list" where
  "overlap =
     [Send, Resume, Elapse 10, TimerFires, Resume,
      Send, Resume, Elapse 10, TimerFires, Resume]"

text \<open>One send on a fresh loop that fails after 3 ms.\<close>

definition first_failure :: "event list" where
  "first_failure = [Send, Resume, Elapse 10, TimerFires, Resume, Elapse 3, Settle 0 False]"

text \<open>
  Three retries after a failure; the first two fail after 3 ms. In each, the loop
  debounces, sleeps in the pacing step until its timer elapses, and dispatches.
\<close>

definition three_retries :: "event list" where
  "three_retries =
     [Resume, Elapse 10, TimerFires, Resume, Elapse 50, TimerFires, Resume,
      Elapse 3, Settle 0 False,
      Resume, Elapse 10, TimerFires, Resume, Elapse 120, TimerFires, Resume,
      Elapse 3, Settle 0 False,
      Resume, Elapse 10, TimerFires, Resume, Elapse 240, TimerFires, Resume]"

text \<open>
  A send that succeeds after 3 ms; two sends that overlap, so that the second is paced
  with the history of that one success; the first of them succeeds and the second fails;
  then three retries, the first two failing after 1 ms.
\<close>

definition fast_then_failing :: "event list" where
  "fast_then_failing =
     [Send, Resume, Elapse 10, TimerFires, Resume,
      Elapse 3, Settle 0 True,
      Send, Resume, Elapse 10, TimerFires, Resume,
      Send, Resume, Elapse 10, TimerFires, Resume,
      Elapse 2, Settle 0 True, Settle 0 False,
      Resume, Elapse 10, TimerFires, Resume,
      Elapse 1, Settle 0 False,
      Resume, Elapse 10, TimerFires, Resume,
      Elapse 1, Settle 0 False,
      Resume, Elapse 10, TimerFires, Resume]"

text \<open>
  Three sends that overlap on a fresh loop, the second and the third paced by the
  initial delay; all three fail at the same time, and the loop retries once.
\<close>

definition three_fail_together :: "event list" where
  "three_fail_together =
     [Send, Resume, Elapse 10, TimerFires, Resume,
      Send, Resume, Elapse 10, TimerFires, Resume, Elapse 20, TimerFires, Resume,
      Send, Resume, Elapse 10, TimerFires, Resume, Elapse 20, TimerFires, Resume,
      Elapse 30, Settle 0 False, Settle 0 False, Settle 0 False,
      Resume, Elapse 10, TimerFires, Resume, Elapse 20, TimerFires, Resume]"

text \<open>A delegate with a debounce of 1 ms and one connection at a time.\<close>

definition eager_delegate :: Delegate where
  "eager_delegate = \<lparr>debounceDelay = Some 1, maxConnections = Some 1, watchdogTimer = None\<rparr>"

text \<open>
  With that delegate: a send that fails after 3 ms, its retry, and a \<open>send()\<close> while
  the retry is in flight, which leaves the loop waiting for a connection.
\<close>

definition waiting_after_failure :: "event list" where
  "waiting_after_failure =
     [Send, Resume, Elapse 1, TimerFires, Resume, Elapse 3, Settle 0 False,
      Resume, Elapse 1, TimerFires, Resume, Elapse 60, TimerFires, Resume,
      Send, Resume, Elapse 1, TimerFires, Resume]"

text \<open>
  The retry fails, which frees the connection; the loop paces and dispatches; the same
  once more.
\<close>

definition two_more_failures :: "event list" where
  "two_more_failures =
     [Elapse 5, Settle 0 False, Resume, Elapse 200, TimerFires, Resume,
      Send, Resume, Elapse 1, TimerFires, Resume,
      Elapse 2, Settle 0 False, Resume, Elapse 400, TimerFires, Resume]"

section \<open>The delay computation\<close>

lemma last_record: "rs \<noteq> [] \<Longrightarrow> rs ! (length rs - Suc 0) = last rs"
  by (simp add: last_conv_nth)

text \<open>
  C1. With a history of more than one record whose last two records are ok, the delay is
  claimed to be the floor of the numerical median of the ok durations divided by
  \<open>maxConnections\<close>. \<open>median\<close> sorts with \<open>values.sort()\<close>, which orders numbers by
  their decimal strings: on the ok durations 5, 10, 100 the sorted array is 10, 100, 5 and
  the middle element is 100, so the code returns \<open>(100 / 3) | 0 = 33\<close>, where the
  numerical median 10 gives \<open>floor (10 / 3) = 3\<close>.
\<close>

theorem median_sorts_by_string:
  "js_sort [5, 10, 100] = [10, 100, 5]
   \<and> median [5, 10, 100] = Some 100
   \<and> fst (computeDelayAndUpdateDurations 30 3
          [\<lparr>duration = 5, ok = True\<rparr>, \<lparr>duration = 10, ok = True\<rparr>,
           \<lparr>duration = 100, ok = True\<rparr>]) = 33
   \<and> numeric_median [5, 10, 100] = 10
   \<and> \<lfloor>numeric_median [5, 10, 100] / of_int 3\<rfloor> = 3"
  by code_simp

text \<open>
  C5. When the last record of a non-empty history is a failure, the new delay is the
  current delay doubled, capped at 60000 ms.
\<close>

theorem delay_doubles_on_failure:
  assumes "rs \<noteq> []" and "\<not> ok (last rs)"
  shows "fst (computeDelayAndUpdateDurations d m rs)
           = min 60000 (d * 2)"
  using assms
  by (simp add: computeDelayAndUpdateDurations_def last_record MAX_DELAY_def Let_def)

theorem delay_doubles_on_failure_witness:
  "fst (computeDelayAndUpdateDurations 30 3 [\<lparr>duration = 12, ok = False\<rparr>]) = 60
   \<and> fst (computeDelayAndUpdateDurations 40000 3
            [\<lparr>duration = 7, ok = True\<rparr>, \<lparr>duration = 12, ok = False\<rparr>]) = 60000"
  using delay_doubles_on_failure [of "[\<lparr>duration = 12, ok = False\<rparr>]" 30 3]
    delay_doubles_on_failure
      [of "[\<lparr>duration = 7, ok = True\<rparr>, \<lparr>duration = 12, ok = False\<rparr>]" 40000 3]
  by simp

text \<open>
  C6. When the history has more than one record, the last one ok and the one before it
  not ok, the history is what \<open>recovered\<close> recognises and the new delay is
  \<open>MIN_DELAY\<close>, 30 ms, whatever the current delay is.
\<close>

theorem recovery_resets_delay:
  assumes "length rs > 1"
    and "ok (last rs)"
    and "\<not> ok (rs ! (length rs - 2))"
  shows "recovered rs
     \<and> fst (computeDelayAndUpdateDurations d m rs) = MIN_DELAY
     \<and> MIN_DELAY = 30"
proof -
  from assms(1) have ne: "rs \<noteq> []"
    by auto
  with assms show ?thesis
    by (simp add: computeDelayAndUpdateDurations_def recovered_def last_record
          Let_def MIN_DELAY_def)
qed

theorem recovery_resets_delay_witness:
  "recovered [\<lparr>duration = 8, ok = True\<rparr>, \<lparr>duration = 50, ok = False\<rparr>,
              \<lparr>duration = 9, ok = True\<rparr>]
   \<and> fst (computeDelayAndUpdateDurations 240 3
            [\<lparr>duration = 8, ok = True\<rparr>, \<lparr>duration = 50, ok = False\<rparr>,
             \<lparr>duration = 9, ok = True\<rparr>]) = 30"
  using recovery_resets_delay
    [of "[\<lparr>duration = 8, ok = True\<rparr>, \<lparr>duration = 50, ok = False\<rparr>,
          \<lparr>duration = 9, ok = True\<rparr>]" 240 3]
  by simp

text \<open>
  C9. A call whose history ends in a failure, or holds at most one record, leaves the
  array as it was; any call leaves the array either as it was or without its first
  (oldest) entry.
\<close>

theorem prune_frame:
  "(\<not> ok (last rs) \<or> length rs \<le> 1 \<longrightarrow>
      snd (computeDelayAndUpdateDurations d m rs) = rs)
   \<and> (snd (computeDelayAndUpdateDurations d m rs) = rs
      \<or> snd (computeDelayAndUpdateDurations d m rs)
          = tl rs)"
  by (cases "rs = []")
     (auto simp add: computeDelayAndUpdateDurations_def last_record Let_def
        split: option.splits)

theorem prune_frame_witness:
  "snd (computeDelayAndUpdateDurations 30 3 (replicate 12 \<lparr>duration = 7, ok = False\<rparr>))
     = replicate 12 \<lparr>duration = 7, ok = False\<rparr>
   \<and> snd (computeDelayAndUpdateDurations 30 3 [\<lparr>duration = 7, ok = True\<rparr>])
     = [\<lparr>duration = 7, ok = True\<rparr>]"
  using prune_frame [of "replicate 12 \<lparr>duration = 7, ok = False\<rparr>" 30 3]
    prune_frame [of "[\<lparr>duration = 7, ok = True\<rparr>]" 30 3]
  by simp

lemma prune_removes_only_one:
  "length (snd (computeDelayAndUpdateDurations 30 3
                  (replicate 11 \<lparr>duration = 7, ok = True\<rparr>))) = 10
   \<and> CONNECTION_MEMORY_COUNT = 9"
  by code_simp

section \<open>The loop\<close>

subsection \<open>Runs\<close>

lemma execute_Nil: "execute dg [] s = s"
  by (simp add: execute_def)

lemma execute_Cons: "execute dg (e # evs) s = execute dg evs (step dg e s)"
  by (simp add: execute_def)

lemma execute_append: "execute dg (evs @ evs') s = execute dg evs' (execute dg evs s)"
  by (simp add: execute_def)


text \<open>
  C3. The history is claimed never to hold more than 9 entries once pruning has run.
  Eleven sends, each on an idle loop and each successful, are dispatched without a pacing
  step, so that nothing is pruned and the history holds 11 records. The pacing step of
  the next overlapping send prunes, by removing one entry: the history then holds 10
  records, one more than \<open>CONNECTION_MEMORY_COUNT\<close>.
\<close>

theorem history_outgrows_memory:
  "length (sendRecords (execute default_delegate (concat (replicate 11 serial_ok))
      (new_loop default_delegate 0))) = 11
   \<and> length (sendRecords (execute default_delegate (concat (replicate 11 serial_ok) @ overlap)
      (new_loop default_delegate 0))) = 10
   \<and> CONNECTION_MEMORY_COUNT = 9"
  unfolding serial_ok_def overlap_def by code_simp

subsection \<open>The pacing gate\<close>






subsection \<open>The debounce\<close>

lemma debounce_send:
  "pc s = Debounce \<Longrightarrow> step dg Send s = s\<lparr>pendingResolver := True\<rparr>"
  by (simp add: send_def resolve_pending_def)

lemma debounce_other:
  assumes "pc s = Debounce" and "e \<noteq> Resume"
  shows "pc (step dg e s) = Debounce \<and>
         step dg e (s\<lparr>pendingResolver := b\<rparr>)
           = (step dg e s)\<lparr>pendingResolver := pendingResolver (step dg e (s\<lparr>pendingResolver := b\<rparr>))\<rparr>"
proof (cases e)
  case Send
  with assms show ?thesis by (simp add: send_def resolve_pending_def)
next
  case Close
  with assms show ?thesis by (simp add: close_def)
next
  case (Elapse n)
  with assms show ?thesis by simp
next
  case TimerFires
  with assms show ?thesis by (simp add: timer_fires_def split: option.splits)
next
  case (Settle i okv)
  with assms show ?thesis
    by (simp add: settle_def connectionAvailable_def resolve_pending_def Let_def)
next
  case Resume
  with assms show ?thesis by simp
qed

lemma debounce_run:
  assumes "pc s = Debounce" and "Resume \<notin> set evs"
  shows "pc (execute dg evs s) = Debounce \<and>
         (\<exists>b. execute dg (filter (\<lambda>e. e \<noteq> Send) evs) (s\<lparr>pendingResolver := b0\<rparr>)
               = (execute dg evs s)\<lparr>pendingResolver := b\<rparr>)"
  using assms
proof (induction evs arbitrary: s b0)
  case Nil
  then show ?case by (auto simp add: execute_Nil)
next
  case (Cons e evs)
  from Cons.prems have ne: "e \<noteq> Resume" and rest: "Resume \<notin> set evs"
    by auto
  show ?case
  proof (cases "e = Send")
    case True
    from Cons.prems(1) have st: "step dg Send s = s\<lparr>pendingResolver := True\<rparr>"
      by (rule debounce_send)
    have pcs: "pc (s\<lparr>pendingResolver := True\<rparr>) = Debounce"
      using Cons.prems(1) by simp
    from Cons.IH [OF pcs rest, of b0] True st show ?thesis
      by (simp add: execute_Cons)
  next
    case False
    from debounce_other [OF Cons.prems(1) ne, of dg b0]
    obtain b' where pcs: "pc (step dg e s) = Debounce"
      and eq: "step dg e (s\<lparr>pendingResolver := b0\<rparr>) = (step dg e s)\<lparr>pendingResolver := b'\<rparr>"
      by blast
    from Cons.IH [OF pcs rest, of b'] False eq show ?thesis
      by (simp add: execute_Cons)
  qed
qed

lemma resume_after_debounce:
  assumes "pc s = Debounce" and "woken s" and "\<not> closed' s"
  shows "resume dg (s\<lparr>pendingResolver := b\<rparr>) = resume dg s"
proof -
  have "admit dg (s\<lparr>pendingResolver := b\<rparr>) = admit dg s"
    by (simp add: admit_def)
  with assms show ?thesis
    by (simp add: resume_def)
qed

lemma debounce_sleeps_step:
  assumes "pc s = Debounce" and "timer s = Some t" and "\<not> waitingConnectionResolve s"
    and "woken s \<longrightarrow> t \<le> now s" and "e \<noteq> Resume"
  shows "pc (step dg e s) = Debounce \<and> timer (step dg e s) = Some t \<and>
         \<not> waitingConnectionResolve (step dg e s) \<and>
         (woken (step dg e s) \<longrightarrow> t \<le> now (step dg e s))"
  using assms
  by (cases e)
     (auto simp add: send_def close_def resolve_pending_def timer_fires_def
        settle_def connectionAvailable_def Let_def)

lemma debounce_sleeps:
  assumes "pc s = Debounce" and "timer s = Some t" and "\<not> waitingConnectionResolve s"
    and "woken s \<longrightarrow> t \<le> now s" and "Resume \<notin> set evs"
  shows "woken (execute dg evs s) \<longrightarrow> t \<le> now (execute dg evs s)"
  using assms
proof (induction evs arbitrary: s)
  case Nil
  then show ?case by (simp add: execute_Nil)
next
  case (Cons e evs)
  from Cons.prems(5) have ne: "e \<noteq> Resume" and rest: "Resume \<notin> set evs"
    by auto
  from debounce_sleeps_step [OF Cons.prems(1-4) ne, of dg]
  have "pc (step dg e s) = Debounce" and "timer (step dg e s) = Some t"
    and "\<not> waitingConnectionResolve (step dg e s)"
    and "woken (step dg e s) \<longrightarrow> t \<le> now (step dg e s)"
    by blast+
  from Cons.IH [OF this rest] show ?case
    by (simp add: execute_Cons)
qed

text \<open>
  C8. When the loop, not closed, resumes from the pending wait, it starts a sleep of
  what the delegate's \<open>debounceDelay\<close> returns, or of \<open>DEBOUNCE_DELAY\<close>, 10 ms, when
  the delegate has none; and whatever happens before it resumes again, it is not woken
  before that time has passed. The calls of \<open>send\<close> during the debounce are absorbed:
  when the loop resumes after the debounce, it continues in the same state as if they had
  not been made.
\<close>

theorem debounce_absorbs_send:
  fixes dg :: Delegate and ms :: int
  assumes "pc s = Pending" and "woken s" and "\<not> closed' s" and "\<not> waitingConnectionResolve s"
    and "Resume \<notin> set evs"
  defines "ms \<equiv> (case debounceDelay dg of None \<Rightarrow> 10 | Some t \<Rightarrow> t)"
  shows "step dg Resume s = s\<lparr>pc := Debounce, woken := False, timer := Some (now s + ms)\<rparr>
     \<and> DEBOUNCE_DELAY = 10
     \<and> debounce_of default_delegate = 10
     \<and> (woken (execute dg evs (step dg Resume s)) \<longrightarrow>
          now s + ms \<le> now (execute dg evs (step dg Resume s)))
     \<and> (woken (execute dg evs (step dg Resume s)) \<and>
        \<not> closed' (execute dg evs (step dg Resume s)) \<longrightarrow>
          execute dg (Resume # evs @ [Resume]) s
            = execute dg (Resume # filter (\<lambda>e. e \<noteq> Send) evs @ [Resume]) s)"
proof -
  let ?d = "step dg Resume s"
  have ms: "debounce_of dg = ms"
    by (simp add: ms_def debounce_of_def DEBOUNCE_DELAY_def split: option.splits)
  have 1: "?d = s\<lparr>pc := Debounce, woken := False, timer := Some (now s + ms)\<rparr>"
    using assms(1-3) by (simp add: resume_def ms)
  have 2: "DEBOUNCE_DELAY = 10" and 20: "debounce_of default_delegate = 10"
    by (simp_all add: debounce_of_def default_delegate_def DEBOUNCE_DELAY_def)
  have pcd: "pc ?d = Debounce" and td: "timer ?d = Some (now s + ms)"
    and wd: "\<not> waitingConnectionResolve ?d" and nd: "woken ?d \<longrightarrow> now s + ms \<le> now ?d"
    unfolding 1 using assms(4) by simp_all
  from debounce_sleeps [OF pcd td wd nd assms(5)]
  have 3: "woken (execute dg evs ?d) \<longrightarrow> now s + ms \<le> now (execute dg evs ?d)" .
  have 4: "execute dg (Resume # evs @ [Resume]) s
             = execute dg (Resume # filter (\<lambda>e. e \<noteq> Send) evs @ [Resume]) s"
    if h: "woken (execute dg evs ?d)" "\<not> closed' (execute dg evs ?d)"
  proof -
    from debounce_run [OF pcd assms(5), of dg "pendingResolver ?d"]
    obtain b where pcs: "pc (execute dg evs ?d) = Debounce"
      and eq: "execute dg (filter (\<lambda>e. e \<noteq> Send) evs) ?d
                 = (execute dg evs ?d)\<lparr>pendingResolver := b\<rparr>"
      by auto
    from resume_after_debounce [OF pcs h, of dg b] eq show ?thesis
      by (simp add: execute_append execute_Cons execute_Nil)
  qed
  from 1 2 20 3 4 show ?thesis by blast
qed

theorem debounce_absorbs_send_witness:
  "execute default_delegate
      ([Send, Resume] @ [Send, Elapse 4, Send, Elapse 6, TimerFires, Send] @ [Resume])
      (new_loop default_delegate 0)
   = execute default_delegate ([Send, Resume] @ [Elapse 4, Elapse 6, TimerFires] @ [Resume])
      (new_loop default_delegate 0)
   \<and> sends (execute default_delegate
      ([Send, Resume] @ [Send, Elapse 4, Send, Elapse 6, TimerFires, Send] @ [Resume])
      (new_loop default_delegate 0)) = [10]
   \<and> timer (execute eager_delegate [Send, Resume] (new_loop eager_delegate 0)) = Some 1
   \<and> execute eager_delegate
      ([Send, Resume] @ [Send, TimerFires, Elapse 1, Send, TimerFires] @ [Resume])
      (new_loop eager_delegate 0)
   = execute eager_delegate ([Send, Resume] @ [TimerFires, Elapse 1, TimerFires] @ [Resume])
      (new_loop eager_delegate 0)
   \<and> sends (execute eager_delegate
      ([Send, Resume] @ [Send, TimerFires, Elapse 1, Send, TimerFires] @ [Resume])
      (new_loop eager_delegate 0)) = [1]"
proof -
  let ?s = "step default_delegate Send (new_loop default_delegate 0)"
  let ?evs = "[Send, Elapse 4, Send, Elapse 6, TimerFires, Send]"
  let ?u = "step eager_delegate Send (new_loop eager_delegate 0)"
  let ?evu = "[Send, TimerFires, Elapse 1, Send, TimerFires]"
  have s: "?s = \<lparr>closed' = False, pendingResolver = True, waitingConnectionResolve = False,
        sendRecords = [], delay = 30, lastSendTime = 0, counter = 0, pc = Pending,
        woken = True, timer = None, inflight = [], sends = [], now = 0\<rparr>"
    by code_simp
  have u: "?u = \<lparr>closed' = False, pendingResolver = True, waitingConnectionResolve = False,
        sendRecords = [], delay = 30, lastSendTime = 0, counter = 0, pc = Pending,
        woken = True, timer = None, inflight = [], sends = [], now = 0\<rparr>"
    by code_simp
  have 1: "pc ?s = Pending" and 2: "woken ?s" and 3: "\<not> closed' ?s"
    and 4: "\<not> waitingConnectionResolve ?s"
    unfolding s by simp_all
  have 5: "Resume \<notin> set ?evs"
    by simp
  have 6: "woken (execute default_delegate ?evs (step default_delegate Resume ?s)) \<and>
           \<not> closed' (execute default_delegate ?evs (step default_delegate Resume ?s))"
    unfolding s by code_simp
  from debounce_absorbs_send [OF 1 2 3 4 5, of default_delegate] 6
  have "execute default_delegate (Resume # ?evs @ [Resume]) ?s
          = execute default_delegate (Resume # filter (\<lambda>e. e \<noteq> Send) ?evs @ [Resume]) ?s"
    by blast
  then have eq: "execute default_delegate
      ([Send, Resume] @ [Send, Elapse 4, Send, Elapse 6, TimerFires, Send] @ [Resume])
      (new_loop default_delegate 0)
   = execute default_delegate ([Send, Resume] @ [Elapse 4, Elapse 6, TimerFires] @ [Resume])
      (new_loop default_delegate 0)"
    by (simp add: execute_Cons)
  have "sends (execute default_delegate
      ([Send, Resume] @ [Elapse 4, Elapse 6, TimerFires] @ [Resume])
      (new_loop default_delegate 0)) = [10]"
    by code_simp
  with eq have a: "sends (execute default_delegate
      ([Send, Resume] @ [Send, Elapse 4, Send, Elapse 6, TimerFires, Send] @ [Resume])
      (new_loop default_delegate 0)) = [10]"
    by simp
  have u1: "pc ?u = Pending" and u2: "woken ?u" and u3: "\<not> closed' ?u"
    and u4: "\<not> waitingConnectionResolve ?u"
    unfolding u by simp_all
  have u5: "Resume \<notin> set ?evu"
    by simp
  have u6: "woken (execute eager_delegate ?evu (step eager_delegate Resume ?u)) \<and>
           \<not> closed' (execute eager_delegate ?evu (step eager_delegate Resume ?u))"
    unfolding u by code_simp
  have dd: "(case debounceDelay eager_delegate of None \<Rightarrow> 10 | Some t \<Rightarrow> t) = 1"
    by (simp add: eager_delegate_def)
  from debounce_absorbs_send [OF u1 u2 u3 u4 u5, of eager_delegate]
  have st: "step eager_delegate Resume ?u
          = ?u\<lparr>pc := Debounce, woken := False, timer := Some (now ?u + 1)\<rparr>"
    and imp: "woken (execute eager_delegate ?evu (step eager_delegate Resume ?u)) \<and>
        \<not> closed' (execute eager_delegate ?evu (step eager_delegate Resume ?u)) \<longrightarrow>
          execute eager_delegate (Resume # ?evu @ [Resume]) ?u
            = execute eager_delegate
                (Resume # filter (\<lambda>e. e \<noteq> Send) ?evu @ [Resume]) ?u"
    unfolding dd by blast+
  have nu: "now ?u = 0"
    unfolding u by simp
  from st have "timer (step eager_delegate Resume ?u) = Some (now ?u + 1)"
    by simp
  with nu have "timer (step eager_delegate Resume ?u) = Some 1"
    by simp
  then have b: "timer (execute eager_delegate [Send, Resume] (new_loop eager_delegate 0))
                  = Some 1"
    by (simp only: execute_def foldl.simps)
  from imp u6
  have "execute eager_delegate (Resume # ?evu @ [Resume]) ?u
          = execute eager_delegate (Resume # filter (\<lambda>e. e \<noteq> Send) ?evu @ [Resume]) ?u"
    by blast
  then have equ: "execute eager_delegate
      ([Send, Resume] @ [Send, TimerFires, Elapse 1, Send, TimerFires] @ [Resume])
      (new_loop eager_delegate 0)
   = execute eager_delegate ([Send, Resume] @ [TimerFires, Elapse 1, TimerFires] @ [Resume])
      (new_loop eager_delegate 0)"
    by (simp add: execute_Cons)
  have "sends (execute eager_delegate
      ([Send, Resume] @ [TimerFires, Elapse 1, TimerFires] @ [Resume])
      (new_loop eager_delegate 0)) = [1]"
    by code_simp
  with equ have c: "sends (execute eager_delegate
      ([Send, Resume] @ [Send, TimerFires, Elapse 1, Send, TimerFires] @ [Resume])
      (new_loop eager_delegate 0)) = [1]"
    by simp
  from eq a b equ c show ?thesis by blast
qed

subsection \<open>Closing\<close>

lemma closed_step:
  "closed' s \<Longrightarrow> closed' (step dg e s) \<and> sends (step dg e s) = sends s"
  by (cases e)
     (auto simp add: resume_def exit_loop_def settle_def send_def resolve_pending_def
        close_def timer_fires_def Let_def split: pc.splits option.splits)

lemma closed_execute:
  "closed' s \<Longrightarrow> closed' (execute dg evs s) \<and> sends (execute dg evs s) = sends s"
proof (induction evs arbitrary: s)
  case Nil
  then show ?case by (simp add: execute_Nil)
next
  case (Cons e evs)
  from Cons.prems have "closed' (step dg e s)" and "sends (step dg e s) = sends s"
    using closed_step by blast+
  with Cons.IH [of "step dg e s"] show ?case
    by (simp add: execute_Cons)
qed

lemma closed_resume_exits:
  "closed' s \<Longrightarrow> woken s \<Longrightarrow> pc (resume dg s) = Exited"
  by (cases "pc s") (simp_all add: resume_def exit_loop_def)

text \<open>
  C4, as claimed: \<open>close()\<close> resolves all internal waits. It does not: on a fresh loop,
  which waits in the pending state, the loop is still suspended there after \<open>close()\<close>,
  and remains so when time passes.
\<close>

theorem close_resolves_no_wait:
  "closed' (step default_delegate Close (new_loop default_delegate 0))
   \<and> pc (step default_delegate Close (new_loop default_delegate 0)) = Pending
   \<and> \<not> woken (step default_delegate Close (new_loop default_delegate 0))
   \<and> pc (execute default_delegate [Close, Elapse 1000, TimerFires, Resume]
           (new_loop default_delegate 0)) = Pending"
  by code_simp

text \<open>
  C4, amended. \<open>close()\<close> sets the closed flag and changes nothing else: no wait is
  resolved by it. Once the loop is closed, a wait that gets resolved (by \<open>send()\<close>, a
  timer, a free connection or a recovery) makes the loop leave at the check of the flag
  that follows the wait, without a dispatch; and an \<open>invokeSend\<close> in flight runs to
  completion with its outcome discarded: settling it only removes it from the calls in
  flight, the history, the counter and the waits are left as they are.
\<close>

theorem close_only_sets_flag:
  "step dg Close s = s\<lparr>closed' := True\<rparr>
   \<and> (closed' s \<and> woken s \<longrightarrow>
        pc (step dg Resume s) = Exited \<and> sends (step dg Resume s) = sends s)
   \<and> (closed' s \<and> i < length (inflight s) \<longrightarrow>
        step dg (Settle i okv) s
          = s\<lparr>inflight := take i (inflight s) @ drop (Suc i) (inflight s)\<rparr>)"
  using closed_step [of s dg Resume] closed_resume_exits [of s dg]
  by (simp add: close_def settle_def Let_def)

theorem close_only_sets_flag_witness:
  "pc (execute default_delegate
         [Send, Resume, Elapse 10, TimerFires, Resume, Close, Send, Resume]
         (new_loop default_delegate 0)) = Exited
   \<and> sendRecords (execute default_delegate
         [Send, Resume, Elapse 10, TimerFires, Resume, Close, Send, Elapse 5, Settle 0 True]
         (new_loop default_delegate 0)) = []"
proof -
  let ?s = "execute default_delegate [Send, Resume, Elapse 10, TimerFires, Resume, Close, Send]
              (new_loop default_delegate 0)"
  let ?t = "step default_delegate (Elapse 5) ?s"
  have s: "?s = \<lparr>closed' = True, pendingResolver = True, waitingConnectionResolve = False,
        sendRecords = [], delay = 30, lastSendTime = 10, counter = 1, pc = Pending,
        woken = True, timer = None, inflight = [10], sends = [10], now = 10\<rparr>"
    by code_simp
  have 1: "closed' ?s \<and> woken ?s"
    unfolding s by simp
  have 2: "closed' ?t \<and> 0 < length (inflight ?t)" and 3: "sendRecords ?t = []"
    unfolding s by simp_all
  from close_only_sets_flag [of default_delegate ?s] 1
  have a: "pc (step default_delegate Resume ?s) = Exited"
    by blast
  from close_only_sets_flag [of default_delegate ?t 0 True] 2
  have "step default_delegate (Settle 0 True) ?t
          = ?t\<lparr>inflight := take 0 (inflight ?t) @ drop (Suc 0) (inflight ?t)\<rparr>"
    by blast
  then have "sendRecords (step default_delegate (Settle 0 True) ?t) = sendRecords ?t"
    by simp
  with 3 have b: "sendRecords (step default_delegate (Settle 0 True) ?t) = []"
    by simp
  have e1: "execute default_delegate
         [Send, Resume, Elapse 10, TimerFires, Resume, Close, Send, Resume]
         (new_loop default_delegate 0) = step default_delegate Resume ?s"
    and e2: "execute default_delegate
         [Send, Resume, Elapse 10, TimerFires, Resume, Close, Send, Elapse 5, Settle 0 True]
         (new_loop default_delegate 0) = step default_delegate (Settle 0 True) ?t"
    by (simp_all only: execute_def foldl.simps)
  from a b show ?thesis
    unfolding e1 e2 by blast
qed

text \<open>
  C10. After \<open>close()\<close>, whatever happens next, no \<open>invokeSend\<close> call is made and the
  loop stays closed; a \<open>send()\<close> then resolves the pending resolver and causes no
  dispatch; and when the loop resumes from the wait it is suspended at, whichever it is,
  it leaves the loop.
\<close>

theorem no_dispatch_after_close:
  "sends (execute dg (Close # evs) s) = sends s
   \<and> closed' (execute dg (Close # evs) s)
   \<and> pendingResolver (step dg Send (execute dg (Close # evs) s))
   \<and> sends (step dg Send (execute dg (Close # evs) s)) = sends s
   \<and> (woken (execute dg (Close # evs) s) \<longrightarrow>
        pc (step dg Resume (execute dg (Close # evs) s)) = Exited)"
proof -
  have c: "closed' (step dg Close s)" and k: "sends (step dg Close s) = sends s"
    by (simp_all add: close_def)
  from closed_execute [OF c, of dg evs] k
  have 1: "closed' (execute dg (Close # evs) s)"
    and 2: "sends (execute dg (Close # evs) s) = sends s"
    by (simp_all add: execute_Cons)
  from closed_step [OF 1, of dg Send] 2
  have 3: "sends (step dg Send (execute dg (Close # evs) s)) = sends s"
    by simp
  have 4: "pendingResolver (step dg Send (execute dg (Close # evs) s))"
    by (simp add: send_def resolve_pending_def)
  from closed_resume_exits [OF 1] have 5: "woken (execute dg (Close # evs) s) \<longrightarrow>
        pc (step dg Resume (execute dg (Close # evs) s)) = Exited"
    by simp
  from 1 2 3 4 5 show ?thesis by blast
qed

theorem no_dispatch_after_close_witness:
  "woken (execute default_delegate [Close, Send] (new_loop default_delegate 0))
   \<and> pc (step default_delegate Resume
          (execute default_delegate [Close, Send] (new_loop default_delegate 0))) = Exited
   \<and> sends (execute default_delegate [Close, Send] (new_loop default_delegate 0))
       = sends (new_loop default_delegate 0)"
proof -
  have w: "woken (execute default_delegate [Close, Send] (new_loop default_delegate 0))"
    by code_simp
  with no_dispatch_after_close [of default_delegate "[Send]" "new_loop default_delegate 0"]
  show ?thesis by blast
qed

subsection \<open>Backoff\<close>

lemma paced_snoc:
  "paced d k prev (ts @ [t]) \<longleftrightarrow>
     paced d k prev ts \<and> last (prev # ts) + min MAX_DELAY (d * 2 ^ (k + length ts)) \<le> t"
  by (induction ts arbitrary: k prev) auto

lemma double_capped:
  "min MAX_DELAY (min MAX_DELAY (d * 2 ^ k) * 2) = min MAX_DELAY (d * 2 ^ Suc k)"
proof -
  define x where "x = d * 2 ^ k"
  have "d * 2 ^ Suc k = x * 2"
    by (simp add: x_def)
  then show ?thesis
    unfolding x_def [symmetric] by (simp add: MAX_DELAY_def min_def)
qed

lemma compute_failed:
  "didLastSendRequestFail rs \<Longrightarrow>
     computeDelayAndUpdateDurations d m rs = (min MAX_DELAY (d * 2), rs)"
  by (simp add: didLastSendRequestFail_def computeDelayAndUpdateDurations_def Let_def)

lemma failed_snoc: "didLastSendRequestFail (rs @ [\<lparr>duration = x, ok = False\<rparr>])"
  by (simp add: didLastSendRequestFail_def)

lemma not_recovered_snoc: "\<not> recovered (rs @ [\<lparr>duration = x, ok = False\<rparr>])"
  by (simp add: recovered_def)

lemma streak_send:
  "failure_streak d0 t0 base s new \<Longrightarrow> failure_streak d0 t0 base (send s) new"
  by (auto simp add: failure_streak_def send_def resolve_pending_def split: if_splits)

lemma streak_close:
  "failure_streak d0 t0 base s new \<Longrightarrow> failure_streak d0 t0 base (close s) new"
  by (auto simp add: failure_streak_def close_def split: if_splits)

lemma streak_elapse:
  "failure_streak d0 t0 base s new \<Longrightarrow>
     failure_streak d0 t0 base (s\<lparr>now := now s + int n\<rparr>) new"
  by (auto simp add: failure_streak_def split: if_splits)

lemma streak_timer:
  "failure_streak d0 t0 base s new \<Longrightarrow> failure_streak d0 t0 base (timer_fires s) new"
  by (auto simp add: failure_streak_def timer_fires_def split: option.splits if_splits)

lemma streak_settle:
  assumes "failure_streak d0 t0 base s new"
  shows "failure_streak d0 t0 base (settle i False s) new"
proof (cases "i < length (inflight s) \<and> \<not> closed' s")
  case False
  with assms show ?thesis
    by (auto simp add: failure_streak_def settle_def Let_def split: if_splits)
next
  case True
  with assms show ?thesis
    by (auto simp add: failure_streak_def settle_def Let_def failed_snoc not_recovered_snoc
          connectionAvailable_def resolve_pending_def split: if_splits)
qed

lemma streak_dispatch:
  assumes "sends s = base @ new" and "paced d0 1 t0 new"
    and "didLastSendRequestFail (sendRecords s)" and "\<not> waitingConnectionResolve s"
    and "lastSendTime s = last (t0 # new)"
    and "delay s = min MAX_DELAY (d0 * 2 ^ Suc (length new))"
    and "lastSendTime s + delay s \<le> now s"
  shows "failure_streak d0 t0 base (dispatch dg s) (new @ [now s])"
  using assms
  by (simp add: failure_streak_def dispatch_def loop_head_def exit_loop_def paced_snoc
        split: option.splits)

lemma streak_pace:
  assumes "failure_streak d0 t0 base s new" and "pc s \<noteq> Pace" and "pc s \<noteq> Exited"
    and "\<not> waitingConnectionResolve s"
  shows "failure_streak d0 t0 base (pace dg s) new
       \<or> failure_streak d0 t0 base (pace dg s) (new @ [now s])"
proof -
  from assms(1) have f: "didLastSendRequestFail (sendRecords s)"
    and sn: "sends s = base @ new" and pa: "paced d0 1 t0 new"
    and ls: "lastSendTime s = last (t0 # new)"
    by (simp_all add: failure_streak_def)
  from assms(1-3)
  have dl: "delay s = (if new = [] then d0 else min MAX_DELAY (d0 * 2 ^ length new))"
    by (simp add: failure_streak_def)
  let ?d = "min MAX_DELAY (d0 * 2 ^ Suc (length new))"
  have cd: "computeDelayAndUpdateDurations (delay s) (connections_of dg) (sendRecords s)
              = (?d, sendRecords s)"
    using compute_failed [OF f] double_capped [of d0 "length new"] dl by simp
  show ?thesis
  proof (cases "?d > now s - lastSendTime s")
    case True
    with f cd have "pace dg s = s\<lparr>delay := ?d, sendRecords := sendRecords s, pc := Pace,
        woken := False, timer := Some (now s + (?d - (now s - lastSendTime s)))\<rparr>"
      by (auto simp add: pace_def Let_def)
    with f sn pa ls assms(4) have "failure_streak d0 t0 base (pace dg s) new"
      by (simp add: failure_streak_def)
    then show ?thesis ..
  next
    case False
    with f cd have eq: "pace dg s = dispatch dg (s\<lparr>delay := ?d, sendRecords := sendRecords s\<rparr>)"
      by (auto simp add: pace_def Let_def)
    let ?s1 = "s\<lparr>delay := ?d, sendRecords := sendRecords s\<rparr>"
    from False have "lastSendTime ?s1 + delay ?s1 \<le> now ?s1"
      by auto
    with streak_dispatch [of ?s1 base new d0 t0 dg] f sn pa ls assms(4)
    have "failure_streak d0 t0 base (pace dg s) (new @ [now s])"
      unfolding eq by simp
    then show ?thesis ..
  qed
qed

lemma streak_resume:
  assumes "failure_streak d0 t0 base s new"
  shows "failure_streak d0 t0 base (resume dg s) new
       \<or> failure_streak d0 t0 base (resume dg s) (new @ [now s])"
proof (cases "woken s")
  case False
  with assms show ?thesis by (simp add: resume_def)
next
  case True
  from assms True have nw: "\<not> waitingConnectionResolve s"
    by (auto simp add: failure_streak_def)
  show ?thesis
  proof (cases "closed' s")
    case c: True
    have "failure_streak d0 t0 base (exit_loop s) new"
      using assms nw by (auto simp add: failure_streak_def exit_loop_def split: if_splits)
    moreover have "resume dg s = exit_loop s \<or> resume dg s = s"
      using True c by (cases "pc s") (simp_all add: resume_def)
    ultimately show ?thesis using assms by auto
  next
    case c: False
    show ?thesis
    proof (cases "pc s")
      case Pending
      with True c assms show ?thesis
        by (auto simp add: resume_def failure_streak_def split: if_splits)
    next
      case Debounce
      let ?s1 = "s\<lparr>pendingResolver := False\<rparr>"
      have s1: "failure_streak d0 t0 base ?s1 new"
        using assms by (auto simp add: failure_streak_def split: if_splits)
      show ?thesis
      proof (cases "counter s \<ge> connections_of dg")
        case w: True
        with True c Debounce have "resume dg s = waitUntilAvailableConnection ?s1"
          by (simp add: resume_def admit_def)
        moreover have "failure_streak d0 t0 base (waitUntilAvailableConnection ?s1) new"
          using assms Debounce
          by (auto simp add: failure_streak_def waitUntilAvailableConnection_def
                split: if_splits)
        ultimately show ?thesis by simp
      next
        case w: False
        with True c Debounce have "resume dg s = pace dg ?s1"
          by (simp add: resume_def admit_def)
        with streak_pace [OF s1, of dg] Debounce nw show ?thesis
          by simp
      qed
    next
      case Admit
      with True c have "resume dg s = pace dg s"
        by (simp add: resume_def)
      with streak_pace [OF assms, of dg] Admit nw show ?thesis
        by simp
    next
      case Pace
      with True c have eq: "resume dg s = dispatch dg s"
        by (simp add: resume_def)
      from assms Pace True nw
      have "failure_streak d0 t0 base (dispatch dg s) (new @ [now s])"
        by (intro streak_dispatch) (simp_all add: failure_streak_def)
      with eq show ?thesis by simp
    next
      case Exited
      with True assms show ?thesis by (simp add: resume_def)
    qed
  qed
qed

lemma streak_step:
  assumes "failure_streak d0 t0 base s new" and "\<forall>i. e \<noteq> Settle i True"
  shows "\<exists>new'. failure_streak d0 t0 base (step dg e s) new'"
proof (cases e)
  case Send
  with streak_send [OF assms(1)] show ?thesis by auto
next
  case Close
  with streak_close [OF assms(1)] show ?thesis by auto
next
  case (Elapse n)
  with streak_elapse [OF assms(1)] show ?thesis by auto
next
  case TimerFires
  with streak_timer [OF assms(1)] show ?thesis by auto
next
  case (Settle i okv)
  with assms(2) have "okv = False" by auto
  with Settle streak_settle [OF assms(1)] show ?thesis by auto
next
  case Resume
  with streak_resume [OF assms(1), of dg] show ?thesis by auto
qed

lemma streak_execute:
  assumes "failure_streak d0 t0 base s new"
    and "\<forall>e\<in>set evs. \<forall>i. e \<noteq> Settle i True"
  shows "\<exists>new'. failure_streak d0 t0 base (execute dg evs s) new'"
  using assms
proof (induction evs arbitrary: s new)
  case Nil
  then show ?case by (auto simp add: execute_Nil)
next
  case (Cons e evs)
  from Cons.prems have "\<forall>i. e \<noteq> Settle i True" by simp
  from streak_step [OF Cons.prems(1) this, of dg]
  obtain new' where "failure_streak d0 t0 base (step dg e s) new'" ..
  from Cons.IH [OF this] Cons.prems(2) show ?case
    by (simp add: execute_Cons)
qed

lemma paced_floor:
  assumes "MIN_DELAY \<le> d"
  shows "paced d (Suc k) prev ts \<Longrightarrow> paced MIN_DELAY k prev ts"
proof (induction ts arbitrary: k prev)
  case Nil
  then show ?case by simp
next
  case (Cons t ts)
  define x where "x = d * 2 ^ k"
  have 1: "MIN_DELAY * 2 ^ k \<le> x"
    unfolding x_def using assms by (intro mult_right_mono) simp_all
  from assms have 2: "0 \<le> x"
    by (simp add: x_def MIN_DELAY_def)
  have 3: "d * 2 ^ Suc k = x * 2"
    by (simp add: x_def)
  from 1 2 3 have "MIN_DELAY * 2 ^ k \<le> d * 2 ^ Suc k"
    by linarith
  then have "min MAX_DELAY (MIN_DELAY * 2 ^ k) \<le> min MAX_DELAY (d * 2 ^ Suc k)"
    by (rule min.mono [OF order_refl])
  moreover from Cons.prems have "prev + min MAX_DELAY (d * 2 ^ Suc k) \<le> t"
    and "paced d (Suc (Suc k)) t ts"
    by simp_all
  ultimately show ?case
    using Cons.IH [of "Suc k" t] by simp
qed

lemma dispatch_frame:
  "delay (dispatch dg s) = delay s" "sendRecords (dispatch dg s) = sendRecords s"
  by (simp_all add: dispatch_def loop_head_def exit_loop_def)

lemma waiting_step:
  assumes "waitingConnectionResolve s \<longrightarrow> pc s = Admit \<and> \<not> woken s \<and> timer s = None"
  shows "waitingConnectionResolve (step dg e s) \<longrightarrow>
           pc (step dg e s) = Admit \<and> \<not> woken (step dg e s) \<and> timer (step dg e s) = None"
proof (cases e)
  case Send
  with assms show ?thesis by (auto simp add: send_def resolve_pending_def)
next
  case Close
  with assms show ?thesis by (simp add: close_def)
next
  case (Elapse n)
  with assms show ?thesis by simp
next
  case TimerFires
  with assms show ?thesis by (auto simp add: timer_fires_def split: option.splits)
next
  case (Settle i okv)
  with assms show ?thesis
    by (auto simp add: settle_def connectionAvailable_def resolve_pending_def Let_def)
next
  case Resume
  show ?thesis
  proof (cases "woken s")
    case False
    with assms Resume show ?thesis by (simp add: resume_def)
  next
    case True
    with assms have nw: "\<not> waitingConnectionResolve s" by auto
    have d: "\<not> waitingConnectionResolve (dispatch dg t)" if "\<not> waitingConnectionResolve t" for t
      using that by (simp add: dispatch_def loop_head_def exit_loop_def)
    have p: "\<not> waitingConnectionResolve (pace dg t)" if "\<not> waitingConnectionResolve t" for t
      using that d [of "t\<lparr>delay := x, sendRecords := y\<rparr>" for x y] d [of t]
      by (simp add: pace_def Let_def)
    from nw True Resume p [of s] p [of "s\<lparr>pendingResolver := False\<rparr>"] d [of s]
    show ?thesis
      by (cases "pc s")
         (simp_all add: resume_def exit_loop_def admit_def waitUntilAvailableConnection_def
            Let_def)
  qed
qed

lemma waiting_reachable:
  "waitingConnectionResolve (execute dg evs (new_loop dg t0)) \<longrightarrow>
     pc (execute dg evs (new_loop dg t0)) = Admit \<and>
     \<not> woken (execute dg evs (new_loop dg t0)) \<and>
     timer (execute dg evs (new_loop dg t0)) = None"
proof -
  have run: "waitingConnectionResolve (execute dg evs s) \<longrightarrow>
           pc (execute dg evs s) = Admit \<and> \<not> woken (execute dg evs s) \<and>
           timer (execute dg evs s) = None"
    if "waitingConnectionResolve s \<longrightarrow> pc s = Admit \<and> \<not> woken s \<and> timer s = None" for s
    using that
  proof (induction evs arbitrary: s)
    case Nil
    then show ?case by (simp add: execute_Nil)
  next
    case (Cons e evs)
    from Cons.IH [OF waiting_step [OF Cons.prems, of dg e]] show ?case
      by (simp add: execute_Cons)
  qed
  have "\<not> waitingConnectionResolve (new_loop dg t0)"
    by (simp add: new_loop_def loop_head_def exit_loop_def)
  with run [of "new_loop dg t0"] show ?thesis
    by blast
qed

lemma compute_all_failed:
  assumes "\<forall>r\<in>set rs. \<not> ok r"
  shows "computeDelayAndUpdateDurations d m rs
           = (if rs = [] then d else min MAX_DELAY (d * 2), rs)"
proof (cases "rs = []")
  case True
  then show ?thesis by (simp add: computeDelayAndUpdateDurations_def)
next
  case False
  with assms have "\<not> ok (last rs)" by simp
  with False have "didLastSendRequestFail rs"
    by (simp add: didLastSendRequestFail_def last_record)
  from compute_failed [OF this] False show ?thesis by simp
qed

lemma failures_only_pace:
  assumes "MIN_DELAY \<le> delay s" and "\<forall>r\<in>set (sendRecords s). \<not> ok r"
  shows "MIN_DELAY \<le> delay (pace dg s) \<and> sendRecords (pace dg s) = sendRecords s"
  using assms compute_all_failed [OF assms(2), of "delay s" "connections_of dg"]
  by (auto simp add: pace_def Let_def dispatch_frame MIN_DELAY_def MAX_DELAY_def)

lemma failures_only_step:
  assumes "MIN_DELAY \<le> delay s" and "\<forall>r\<in>set (sendRecords s). \<not> ok r"
    and "\<forall>i. e \<noteq> Settle i True"
  shows "MIN_DELAY \<le> delay (step dg e s) \<and> (\<forall>r\<in>set (sendRecords (step dg e s)). \<not> ok r)"
proof (cases e)
  case Send
  with assms show ?thesis by (simp add: send_def resolve_pending_def)
next
  case Close
  with assms show ?thesis by (simp add: close_def)
next
  case (Elapse n)
  with assms show ?thesis by simp
next
  case TimerFires
  with assms show ?thesis by (simp add: timer_fires_def split: option.splits)
next
  case (Settle i okv)
  with assms(3) have "okv = False" by auto
  with Settle assms(1,2) show ?thesis
    by (auto simp add: settle_def connectionAvailable_def resolve_pending_def Let_def)
next
  case Resume
  have "MIN_DELAY \<le> delay (s\<lparr>pendingResolver := False\<rparr>)"
    and "\<forall>r\<in>set (sendRecords (s\<lparr>pendingResolver := False\<rparr>)). \<not> ok r"
    using assms(1,2) by simp_all
  from failures_only_pace [OF this, of dg] failures_only_pace [OF assms(1,2), of dg]
    assms(1,2) Resume
  show ?thesis
    by (cases "pc s")
       (auto simp add: resume_def exit_loop_def admit_def waitUntilAvailableConnection_def
          dispatch_frame Let_def)
qed

lemma failures_only_reachable:
  assumes "\<forall>e\<in>set evs. \<forall>i. e \<noteq> Settle i True"
  shows "MIN_DELAY \<le> delay (execute dg evs (new_loop dg t0))"
proof -
  have run: "MIN_DELAY \<le> delay (execute dg evs s) \<and>
             (\<forall>r\<in>set (sendRecords (execute dg evs s)). \<not> ok r)"
    if "MIN_DELAY \<le> delay s" and "\<forall>r\<in>set (sendRecords s). \<not> ok r"
      and "\<forall>e\<in>set evs. \<forall>i. e \<noteq> Settle i True" for s
    using that
  proof (induction evs arbitrary: s)
    case Nil
    then show ?case by (simp add: execute_Nil)
  next
    case (Cons e evs)
    from Cons.prems(3) have e: "\<forall>i. e \<noteq> Settle i True"
      and rest: "\<forall>e\<in>set evs. \<forall>i. e \<noteq> Settle i True"
      by simp_all
    from failures_only_step [OF Cons.prems(1,2) e, of dg]
    have "MIN_DELAY \<le> delay (step dg e s)"
      and "\<forall>r\<in>set (sendRecords (step dg e s)). \<not> ok r"
      by blast+
    from Cons.IH [OF this rest] show ?case
      by (simp add: execute_Cons)
  qed
  have "MIN_DELAY \<le> delay (new_loop dg t0)" and "sendRecords (new_loop dg t0) = []"
    by (simp_all add: new_loop_def loop_head_def exit_loop_def)
  with run [of "new_loop dg t0"] assms show ?thesis
    by simp
qed

text \<open>
  C2, as claimed: in every run, the dispatch after \<open>k\<close> consecutive failures is at least
  \<open>min (60000, 30 * 2^(k-1))\<close> ms after the one before. In the run \<open>fast_then_failing\<close>
  the pacing of two overlapping sends sets the delay to \<open>(3 / 3) | 0 = 1\<close>, and the
  three failures that follow double it to 2, 4 and 8: the retries are dispatched at 45,
  56 and 67 ms, the last one 11 ms after the one before, where the claim says 120.
\<close>

theorem backoff_below_bound:
  "sends (execute default_delegate fast_then_failing (new_loop default_delegate 0))
     = [10, 23, 33, 45, 56, 67]
   \<and> map ok (sendRecords (execute default_delegate fast_then_failing
                (new_loop default_delegate 0)))
       = [True, True, False, False, False]
   \<and> delay (execute default_delegate fast_then_failing (new_loop default_delegate 0)) = 8
   \<and> \<not> (56 + min 60000 (30 * 2 ^ (3 - 1)) \<le> (67::int))"
  unfolding fast_then_failing_def by code_simp

text \<open>
  The delay is doubled by the pacing step, once for each dispatch, not once for each
  failure: when three sends in flight on a fresh loop fail together, the delay is 30 until
  the retry is paced, which doubles it once. The retry is dispatched 60 ms after the send
  before it, with three consecutive failures in the history.
\<close>

lemma one_doubling_for_three_failures:
  "sends (execute default_delegate three_fail_together (new_loop default_delegate 0))
     = [10, 40, 70, 130]
   \<and> map ok (sendRecords (execute default_delegate three_fail_together
                (new_loop default_delegate 0)))
       = [False, False, False]
   \<and> delay (execute default_delegate three_fail_together (new_loop default_delegate 0)) = 60"
  unfolding three_fail_together_def by code_simp

text \<open>
  C2, amended. Take any state \<open>s\<close> that a loop reaches in which the last recorded outcome
  is a failure, the loop is not in its pacing sleep and the delay \<open>d\<close> is at least
  \<open>MIN_DELAY\<close>, 30. In every run from there in which no successful outcome is recorded,
  the \<open>k\<close>-th dispatch is made at least \<open>min (60000, d * 2^k)\<close> ms after the dispatch
  before it, and so at least \<open>min (60000, 30 * 2^(k-1))\<close> ms after it. The delay is at
  least \<open>MIN_DELAY\<close> in every state that the loop reaches without a successful outcome
  since its creation. Nothing is said of a streak of failures that starts with a delay
  below \<open>MIN_DELAY\<close>.
\<close>

theorem failure_streak_backoff:
  fixes dg :: Delegate and pre :: "event list" and t0 :: int and s :: Loop
  defines "s \<equiv> execute dg pre (new_loop dg t0)"
  assumes failed: "didLastSendRequestFail (sendRecords s)"
    and idle: "pc s \<noteq> Pace"
    and failures: "\<forall>e\<in>set evs. \<forall>i. e \<noteq> Settle i True"
  shows "(MIN_DELAY \<le> delay s \<longrightarrow>
            take (length (sends s)) (sends (execute dg evs s)) = sends s \<and>
            paced (delay s) 1 (lastSendTime s)
              (drop (length (sends s)) (sends (execute dg evs s))) \<and>
            paced 30 0 (lastSendTime s)
              (drop (length (sends s)) (sends (execute dg evs s))))
     \<and> ((\<forall>e\<in>set pre. \<forall>i. e \<noteq> Settle i True) \<longrightarrow> MIN_DELAY \<le> delay s)"
proof -
  from waiting_reachable [of dg pre t0]
  have w: "waitingConnectionResolve s \<longrightarrow> pc s = Admit \<and> \<not> woken s \<and> timer s = None"
    by (simp add: s_def)
  have init: "failure_streak (delay s) (lastSendTime s) (sends s) s []"
    using failed idle w by (simp add: failure_streak_def)
  from streak_execute [OF init failures, of dg]
  obtain new where "failure_streak (delay s) (lastSendTime s) (sends s) (execute dg evs s) new" ..
  then have sn: "sends (execute dg evs s) = sends s @ new"
    and pa: "paced (delay s) 1 (lastSendTime s) new"
    by (simp_all add: failure_streak_def)
  have fl: "paced 30 0 (lastSendTime s) new" if "MIN_DELAY \<le> delay s"
    using paced_floor [OF that, of 0 "lastSendTime s" new] pa
    by (simp add: MIN_DELAY_def)
  have fr: "MIN_DELAY \<le> delay s" if "\<forall>e\<in>set pre. \<forall>i. e \<noteq> Settle i True"
    using failures_only_reachable [OF that, of dg t0] by (simp add: s_def)
  from sn pa fl fr show ?thesis
    by simp
qed

theorem failure_streak_backoff_witness:
  "sends (execute default_delegate (first_failure @ three_retries) (new_loop default_delegate 0))
     = [10, 73, 206, 459]
   \<and> paced 30 1 10 [73, 206, 459]
   \<and> paced 30 0 10 [73, 206, 459]
   \<and> waitingConnectionResolve (execute eager_delegate waiting_after_failure
        (new_loop eager_delegate 0))
   \<and> sends (execute eager_delegate (waiting_after_failure @ two_more_failures)
        (new_loop eager_delegate 0)) = [1, 65, 271, 674]
   \<and> paced 60 1 65 [271, 674]"
proof -
  let ?s = "execute default_delegate first_failure (new_loop default_delegate 0)"
  have s: "?s = \<lparr>closed' = False, pendingResolver = True, waitingConnectionResolve = False,
        sendRecords = [\<lparr>duration = 3, ok = False\<rparr>], delay = 30, lastSendTime = 10,
        counter = 0, pc = Pending, woken = True, timer = None, inflight = [], sends = [10],
        now = 13\<rparr>"
    unfolding first_failure_def by code_simp
  have 1: "didLastSendRequestFail (sendRecords ?s)"
    unfolding s by code_simp
  have 2: "pc ?s \<noteq> Pace"
    unfolding s by simp
  have 3: "\<forall>e\<in>set three_retries. \<forall>i. e \<noteq> Settle i True"
    by (simp add: three_retries_def)
  have 4: "\<forall>e\<in>set first_failure. \<forall>i. e \<noteq> Settle i True"
    by (simp add: first_failure_def)
  have 5: "sends (execute default_delegate three_retries ?s) = [10, 73, 206, 459]"
    unfolding s three_retries_def by code_simp
  from failure_streak_backoff [OF 1 2 3] 4
  have "paced (delay ?s) 1 (lastSendTime ?s)
          (drop (length (sends ?s)) (sends (execute default_delegate three_retries ?s)))"
    and "paced 30 0 (lastSendTime ?s)
          (drop (length (sends ?s)) (sends (execute default_delegate three_retries ?s)))"
    by blast+
  then have a: "paced 30 1 10 [73, 206, 459]" and b: "paced 30 0 10 [73, 206, 459]"
    unfolding 5 unfolding s by simp_all
  let ?u = "execute eager_delegate waiting_after_failure (new_loop eager_delegate 0)"
  have u: "?u = \<lparr>closed' = False, pendingResolver = False, waitingConnectionResolve = True,
        sendRecords = [\<lparr>duration = 3, ok = False\<rparr>], delay = 60, lastSendTime = 65,
        counter = 1, pc = Admit, woken = False, timer = None, inflight = [65],
        sends = [1, 65], now = 66\<rparr>"
    unfolding waiting_after_failure_def by code_simp
  have u1: "didLastSendRequestFail (sendRecords ?u)"
    unfolding u by code_simp
  have u2: "pc ?u \<noteq> Pace" and u0: "waitingConnectionResolve ?u"
    and u4: "MIN_DELAY \<le> delay ?u"
    unfolding u by (simp_all add: MIN_DELAY_def)
  have u3: "\<forall>e\<in>set two_more_failures. \<forall>i. e \<noteq> Settle i True"
    by (simp add: two_more_failures_def)
  have u5: "sends (execute eager_delegate two_more_failures ?u) = [1, 65, 271, 674]"
    unfolding u two_more_failures_def by code_simp
  from failure_streak_backoff [OF u1 u2 u3] u4
  have "paced (delay ?u) 1 (lastSendTime ?u)
          (drop (length (sends ?u)) (sends (execute eager_delegate two_more_failures ?u)))"
    by blast
  then have c: "paced 60 1 65 [271, 674]"
    unfolding u5 unfolding u by simp
  from 5 a b u0 u5 c show ?thesis
    by (simp only: execute_append simp_thms)
qed

end
